theory Spec2Isabelle
  imports Main
begin

section \<open>Characters of a page text\<close>

text \<open>
  A Python \<open>str\<close> is a sequence of code points. The model takes a text as a \<open>string\<close>
  whose characters are the code points below 256; the three character tables below are
  the ones Python's \<open>re\<close> module and \<open>str.strip\<close> use on that range.
\<close>

definition isspace :: "char \<Rightarrow> bool" where
  \<comment> \<open>the class \<open>\s\<close> of \<open>re\<close>, which is also what \<open>str.strip()\<close> removes\<close>
  "isspace c =
     (let n = (of_char c :: nat)
      in (9 \<le> n \<and> n \<le> 13) \<or> (28 \<le> n \<and> n \<le> 32) \<or> n = 133 \<or> n = 160)"

definition isword :: "char \<Rightarrow> bool" where
  \<comment> \<open>the class \<open>\w\<close> of \<open>re\<close>: alphanumeric or underscore\<close>
  "isword c =
     (let n = (of_char c :: nat)
      in (48 \<le> n \<and> n \<le> 57) \<or> (65 \<le> n \<and> n \<le> 90) \<or> n = 95 \<or> (97 \<le> n \<and> n \<le> 122)
         \<or> n = 170 \<or> n = 178 \<or> n = 179 \<or> n = 181 \<or> n = 185 \<or> n = 186
         \<or> (188 \<le> n \<and> n \<le> 190) \<or> (192 \<le> n \<and> n \<le> 214) \<or> (216 \<le> n \<and> n \<le> 246)
         \<or> 248 \<le> n)"

definition lower :: "char \<Rightarrow> char" where
  \<comment> \<open>the lower-case form that \<open>(?i)\<close> compares\<close>
  "lower c =
     (let n = (of_char c :: nat)
      in if (65 \<le> n \<and> n \<le> 90) \<or> (192 \<le> n \<and> n \<le> 214) \<or> (216 \<le> n \<and> n \<le> 222)
         then char_of (n + 32) else c)"

definition is_newline :: "char \<Rightarrow> bool" where
  \<comment> \<open>the two characters that \<open>[^\r\n]\<close> excludes\<close>
  "is_newline c = (c = CHR 0x0D \<or> c = CHR 0x0A)"

definition strip :: "string \<Rightarrow> string" where
  \<comment> \<open>\<open>str.strip()\<close>\<close>
  "strip s = rev (dropWhile isspace (rev (dropWhile isspace s)))"

definition or_none :: "string \<Rightarrow> string option" where
  \<comment> \<open>\<open>value or None\<close> on a string\<close>
  "or_none v = (if v = [] then None else Some v)"

section \<open>The search pattern\<close>

text \<open>
  \<open>re.search(rf"(?i)\b{re.escape(label)}\s*:\s*([^\r\n]+)", text)\<close>: the matcher tries
  each start position from the left, and at one position each greedy \<open>\s*\<close> first takes
  all the white space it can and then gives characters back one at a time.
\<close>

definition at_boundary :: "char option \<Rightarrow> string \<Rightarrow> bool" where
  \<comment> \<open>\<open>\b\<close> between the character before the position and the rest of the text\<close>
  "at_boundary prev s =
     ((case prev of None \<Rightarrow> False | Some p \<Rightarrow> isword p)
        \<noteq> (case s of [] \<Rightarrow> False | c # _ \<Rightarrow> isword c))"

fun match_label :: "string \<Rightarrow> string \<Rightarrow> string option" where
  "match_label [] s = Some s"
| "match_label (c # cs) [] = None"
| "match_label (c # cs) (d # ds) = (if lower d = lower c then match_label cs ds else None)"

fun capture_value :: "string \<Rightarrow> nat \<Rightarrow> string option" where
  \<comment> \<open>\<open>([^\r\n]+)\<close> after \<open>k\<close> characters of white space, then after fewer\<close>
  "capture_value s 0 =
     (let g = takeWhile (\<lambda>c. \<not> is_newline c) s in if g \<noteq> [] then Some g else None)"
| "capture_value s (Suc k) =
     (let g = takeWhile (\<lambda>c. \<not> is_newline c) (drop (Suc k) s)
      in if g \<noteq> [] then Some g else capture_value s k)"

definition after_colon :: "string \<Rightarrow> string option" where
  "after_colon s = capture_value s (length (takeWhile isspace s))"

definition colon_here :: "string \<Rightarrow> string option" where
  "colon_here s =
     (case s of [] \<Rightarrow> None | c # r \<Rightarrow> if c = CHR '':'' then after_colon r else None)"

fun colon_value :: "string \<Rightarrow> nat \<Rightarrow> string option" where
  \<comment> \<open>\<open>:\s*([^\r\n]+)\<close> after \<open>k\<close> characters of white space, then after fewer\<close>
  "colon_value s 0 = colon_here s"
| "colon_value s (Suc k) =
     (case colon_here (drop (Suc k) s) of Some g \<Rightarrow> Some g | None \<Rightarrow> colon_value s k)"

definition match_here :: "char option \<Rightarrow> string \<Rightarrow> string \<Rightarrow> string option" where
  \<comment> \<open>the whole pattern at one position; the result is group 1\<close>
  "match_here prev label s =
     (if at_boundary prev s
      then (case match_label label s of
              None \<Rightarrow> None
            | Some r \<Rightarrow> colon_value r (length (takeWhile isspace r)))
      else None)"

fun search_from :: "char option \<Rightarrow> string \<Rightarrow> string \<Rightarrow> string option" where
  "search_from prev label [] = match_here prev label []"
| "search_from prev label (c # cs) =
     (case match_here prev label (c # cs) of
        Some g \<Rightarrow> Some g
      | None \<Rightarrow> search_from (Some c) label cs)"

definition re_search :: "string \<Rightarrow> string \<Rightarrow> string option" where
  "re_search label text = search_from None label text"

section \<open>extract\_parts.py: the field extractors\<close>

definition extract_first_value :: "string \<Rightarrow> string \<Rightarrow> string option" where
  "extract_first_value text label =
     (case re_search label text of
        None \<Rightarrow> None
      | Some g \<Rightarrow> or_none (strip g))"

definition first_segment :: "string \<Rightarrow> string" where
  \<comment> \<open>\<open>if "/" in value: value = value.split("/", 1)[0].strip()\<close>\<close>
  "first_segment v =
     (if CHR ''/'' \<in> set v then strip (takeWhile (\<lambda>c. c \<noteq> CHR ''/'') v) else v)"

definition extract_first_part :: "string \<Rightarrow> string option" where
  "extract_first_part text =
     (case extract_first_value text ''Part'' of
        None \<Rightarrow> None
      | Some v \<Rightarrow> if v = [] then None else or_none (first_segment v))"

definition extract_first_asm :: "string \<Rightarrow> string option" where
  "extract_first_asm text = extract_first_value text ''Asm''"

definition extract_first_job :: "string \<Rightarrow> string option" where
  "extract_first_job text = extract_first_value text ''Job''"

section \<open>Positions of a text\<close>





section \<open>extract\_parts.py: the page loop of \<open>main\<close>\<close>

text \<open>
  \<open>flush_range\<close> formats one report line from the open range and appends it to
  \<open>file_rows\<close>. The model appends the four values the line is built from, as a
  \<open>range_record\<close>, and \<open>row_line\<close> formats them when the rows of the file are
  written out, so that \<open>map row_line\<close> of the records is the source's \<open>file_rows\<close>.
  Page indices count up from 1 and are never subtracted from, so they are \<open>nat\<close>.
  A page is its text, \<open>page.extract_text() or ""\<close>, a string that may be empty.
\<close>

record range_record =
  start_page :: nat
  end_page :: nat
  asm :: string
  part :: string

record loop_state =
  file_rows :: "range_record list"
  job_value :: "string option"
  last_part :: "string option"
  last_asm :: "string option"
  range_start :: "nat option"
  range_end :: "nat option"

fun str_nat :: "nat \<Rightarrow> string" where
  \<comment> \<open>the decimal digits of an index, as an f-string prints it\<close>
  "str_nat n =
     (if n < 10 then [char_of (48 + n)]
      else str_nat (n div 10) @ [char_of (48 + n mod 10)])"

definition page_label :: "nat \<Rightarrow> nat \<Rightarrow> string" where
  "page_label a b =
     (if a = b then ''Page '' @ str_nat a
      else ''Page '' @ str_nat a @ ''-'' @ str_nat b)"

definition row_line :: "range_record \<Rightarrow> string" where
  "row_line r =
     page_label (start_page r) (end_page r) @ ''  Asm: '' @ asm r @ ''  Part: '' @ part r"

definition or_empty :: "string option \<Rightarrow> string" where
  \<comment> \<open>\<open>x or ''\<close> on an optional string\<close>
  "or_empty x = (case x of None \<Rightarrow> [] | Some v \<Rightarrow> v)"

definition flush_range :: "loop_state \<Rightarrow> loop_state" where
  "flush_range s =
     (case last_part s of
        None \<Rightarrow> s
      | Some p \<Rightarrow>
          (case range_start s of
             None \<Rightarrow> s
           | Some a \<Rightarrow>
               (case range_end s of
                  None \<Rightarrow> s
                | Some b \<Rightarrow>
                    s\<lparr>file_rows := file_rows s @
                        [\<lparr>start_page = a, end_page = b,
                          asm = or_empty (last_asm s), part = p\<rparr>]\<rparr>)))"

definition start_range :: "loop_state \<Rightarrow> string \<Rightarrow> string \<Rightarrow> nat \<Rightarrow> loop_state" where
  \<comment> \<open>the four assignments that open a range at page \<open>idx\<close>\<close>
  "start_range s p a idx =
     s\<lparr>last_part := Some p, last_asm := Some a,
       range_start := Some idx, range_end := Some idx\<rparr>"

definition read_job :: "loop_state \<Rightarrow> string \<Rightarrow> loop_state" where
  \<comment> \<open>\<open>if job_value is None: job_value = extract_first_job(text) or None\<close>\<close>
  "read_job s text =
     (if job_value s = None
      then s\<lparr>job_value := (case extract_first_job text of
                               None \<Rightarrow> None | Some j \<Rightarrow> or_none j)\<rparr>
      else s)"

definition loop_body :: "loop_state \<Rightarrow> nat \<Rightarrow> string \<Rightarrow> loop_state" where
  "loop_body s idx text =
     (let s1 = read_job s text in
      case extract_first_part text of
        None \<Rightarrow> s1
      | Some p \<Rightarrow>
          if p = [] then s1
          else
            let a = or_empty (extract_first_asm text) in
            if last_part s1 = None then start_range s1 p a idx
            else if Some p = last_part s1 \<and> Some a = last_asm s1 \<and> range_end s1 \<noteq> None
            then s1\<lparr>range_end := Some idx\<rparr>
            else start_range (flush_range s1) p a idx)"

fun page_loop :: "loop_state \<Rightarrow> (nat \<times> string) list \<Rightarrow> loop_state" where
  "page_loop s [] = s"
| "page_loop s ((idx, text) # rest) = page_loop (loop_body s idx text) rest"

definition initial_state :: loop_state where
  "initial_state =
     \<lparr>file_rows = [], job_value = None, last_part = None, last_asm = None,
      range_start = None, range_end = None\<rparr>"

definition compress :: "string list \<Rightarrow> loop_state" where
  \<comment> \<open>one file: the loop over \<open>enumerate(reader.pages, start=1)\<close>, then the last flush\<close>
  "compress pages = flush_range (page_loop initial_state (enumerate 1 pages))"

definition pdf_rows :: "string \<Rightarrow> string list \<Rightarrow> string list" where
  \<comment> \<open>the lines one file adds to \<open>rows\<close>\<close>
  "pdf_rows name pages =
     (let s = compress pages in
      if file_rows s \<noteq> []
      then (case job_value s of
              None \<Rightarrow> []
            | Some j \<Rightarrow> if j \<noteq> [] then [''Job: '' @ j] else [])
           @ [''File: '' @ name] @ map row_line (file_rows s) @ [[]]
      else [])"

definition main_rows :: "(string \<times> string list) list \<Rightarrow> string list" where
  \<comment> \<open>\<open>rows\<close> after the loop over the files, each a name and its page texts\<close>
  "main_rows pdfs = concat (map (\<lambda>(name, pages). pdf_rows name pages) pdfs)"

section \<open>The state of the open range, and the header lines\<close>

text \<open>
  Two notions the claims use: the part of the loop state that describes the ranges (all
  of it but \<open>job_value\<close>), and the lines of a file's rows that are \<open>Job:\<close> headers.
\<close>

definition run_of ::
  "loop_state \<Rightarrow> range_record list \<times> string option \<times> string option \<times> nat option \<times> nat option"
  where
  "run_of s = (file_rows s, last_part s, last_asm s, range_start s, range_end s)"

definition job_lines :: "string list \<Rightarrow> string list" where
  "job_lines rows = filter (\<lambda>l. take 5 l = ''Job: '') rows"

section \<open>The invariant of the page loop\<close>

text \<open>
  A record is in order for a list of pages when its range lies within the pages and
  every page of the range that gives a part gives the record's part and asm. The loop
  keeps all its rows in order, and keeps the open range in order up to the page done last.
\<close>

definition pair_ok :: "string list \<Rightarrow> string \<Rightarrow> string \<Rightarrow> nat \<Rightarrow> bool" where
  \<comment> \<open>page \<open>i\<close> gives no part, or gives the part \<open>p\<close> and the asm \<open>y\<close>\<close>
  "pair_ok pages p y i =
     (case extract_first_part (pages ! (i - 1)) of
        None \<Rightarrow> True
      | Some q \<Rightarrow> q = p \<and> or_empty (extract_first_asm (pages ! (i - 1))) = y)"

definition range_ok :: "string list \<Rightarrow> string \<Rightarrow> string \<Rightarrow> nat \<Rightarrow> nat \<Rightarrow> bool" where
  "range_ok pages p y a b =
     (1 \<le> a \<and> a \<le> b \<and> b \<le> length pages \<and> list_all (pair_ok pages p y) [a..<Suc b])"

definition record_ok :: "string list \<Rightarrow> range_record \<Rightarrow> bool" where
  "record_ok pages r = range_ok pages (part r) (asm r) (start_page r) (end_page r)"

definition loop_inv :: "string list \<Rightarrow> nat \<Rightarrow> loop_state \<Rightarrow> bool" where
  \<comment> \<open>what holds of the loop state when the pages up to index \<open>n\<close> are done\<close>
  "loop_inv pages n s =
     (list_all (record_ok pages) (file_rows s) \<and>
      (case last_part s of
         None \<Rightarrow> True
       | Some p \<Rightarrow>
           (case last_asm s of
              None \<Rightarrow> False
            | Some y \<Rightarrow>
                (case range_start s of
                   None \<Rightarrow> False
                 | Some a \<Rightarrow>
                     (case range_end s of
                        None \<Rightarrow> False
                      | Some b \<Rightarrow> a \<le> b \<and> b \<le> n \<and> range_ok pages p y a n)))))"

section \<open>Facts about the pattern search\<close>

lemma or_none_not_empty: "or_none v \<noteq> Some []"
  by (simp add: or_none_def)

lemma extract_first_value_not_empty: "extract_first_value text label \<noteq> Some []"
  by (simp add: extract_first_value_def or_none_not_empty split: option.splits)









lemma newline_isspace: "is_newline c \<Longrightarrow> isspace c"
  by (auto simp add: is_newline_def isspace_def)

lemma match_label_self: "match_label l (l @ r) = Some r"
  by (induction l) simp_all

lemma takeWhile_spaces:
  "list_all isspace ws \<Longrightarrow> \<not> isspace c \<Longrightarrow> takeWhile isspace (ws @ c # r) = ws"
  by (induction ws) simp_all

lemma after_colon_value:
  assumes "list_all isspace ws" and "\<not> isspace c"
  shows "after_colon (ws @ c # v) = Some (takeWhile (\<lambda>d. \<not> is_newline d) (c # v))"
proof -
  from assms(2) have nn: "\<not> is_newline c" using newline_isspace by blast
  from assms have k: "length (takeWhile isspace (ws @ c # v)) = length ws"
    by (simp add: takeWhile_spaces)
  show ?thesis
  proof (cases "length ws")
    case 0
    with nn assms(2) show ?thesis by (simp add: after_colon_def)
  next
    case (Suc n)
    then have "drop (Suc n) (ws @ c # v) = c # v" by simp
    with nn Suc k show ?thesis by (simp add: after_colon_def del: drop_append)
  qed
qed

lemma colon_value_found:
  assumes "list_all isspace ws" and "after_colon r = Some g"
  shows "colon_value (ws @ CHR '':'' # r) (length ws) = Some g"
proof (cases "length ws")
  case 0
  with assms show ?thesis by (simp add: colon_here_def)
next
  case (Suc n)
  then have "drop (Suc n) (ws @ CHR '':'' # r) = CHR '':'' # r" by simp
  with assms Suc show ?thesis by (simp add: colon_here_def del: drop_append)
qed

lemma search_from_here:
  "match_here prev label s = Some g \<Longrightarrow> search_from prev label s = Some g"
  by (cases s) simp_all

lemma strip_not_empty: "\<not> isspace c \<Longrightarrow> strip (c # v) \<noteq> []"
  by (simp add: strip_def)

lemma not_space_colon: "\<not> isspace CHR '':''"
  by (simp add: isspace_def)

section \<open>Facts about the page loop\<close>

lemma extract_first_part_not_empty: "extract_first_part t \<noteq> Some []"
  by (simp add: extract_first_part_def or_none_not_empty split: option.splits)

lemma extract_first_job_or_none:
  "(case extract_first_job t of None \<Rightarrow> None | Some j \<Rightarrow> or_none j) = extract_first_job t"
  using extract_first_value_not_empty [of t "''Job''"]
  by (simp add: extract_first_job_def or_none_def split: option.splits)

lemma read_job_fields:
  "job_value (read_job s t) = (if job_value s = None then extract_first_job t else job_value s)"
  "file_rows (read_job s t) = file_rows s"
  "last_part (read_job s t) = last_part s"
  "last_asm (read_job s t) = last_asm s"
  "range_start (read_job s t) = range_start s"
  "range_end (read_job s t) = range_end s"
  by (simp_all add: read_job_def extract_first_job_or_none)

lemma flush_range_fields:
  "job_value (flush_range s) = job_value s"
  "last_part (flush_range s) = last_part s"
  "last_asm (flush_range s) = last_asm s"
  "range_start (flush_range s) = range_start s"
  "range_end (flush_range s) = range_end s"
  by (simp_all add: flush_range_def split: option.splits)

lemma loop_body_job: "job_value (loop_body s idx t) = job_value (read_job s t)"
  by (simp add: loop_body_def Let_def start_range_def flush_range_fields split: option.splits)

lemma page_loop_job:
  "job_value (page_loop s ips) =
     (case job_value s of
        Some j \<Rightarrow> Some j
      | None \<Rightarrow> (case List.map_filter extract_first_job (map snd ips) of
                   [] \<Rightarrow> None | j # _ \<Rightarrow> Some j))"
proof (induction ips arbitrary: s)
  case Nil
  then show ?case by (simp add: map_filter_simps split: option.splits)
next
  case (Cons ip ips)
  obtain idx t where ip: "ip = (idx, t)" by (cases ip)
  show ?case
    by (simp add: ip Cons.IH loop_body_job read_job_fields map_filter_simps
        split: option.splits)
qed

lemma compress_job:
  "job_value (compress pages) =
     (case List.map_filter extract_first_job pages of [] \<Rightarrow> None | j # _ \<Rightarrow> Some j)"
  by (simp add: compress_def flush_range_fields page_loop_job initial_state_def)

lemma page_loop_append: "page_loop s (xs @ ys) = page_loop (page_loop s xs) ys"
  by (induction xs arbitrary: s) auto

lemma loop_body_no_part: "extract_first_part t = None \<Longrightarrow> loop_body s idx t = read_job s t"
  by (simp add: loop_body_def)

lemma run_of_read_job: "run_of (read_job s t) = run_of s"
  by (simp add: run_of_def read_job_fields)

lemma run_of_flush_range:
  "run_of s = run_of s' \<Longrightarrow> run_of (flush_range s) = run_of (flush_range s')"
  by (simp add: run_of_def flush_range_def split: option.splits)

lemma run_of_loop_body:
  assumes "run_of s = run_of s'"
  shows "run_of (loop_body s idx t) = run_of (loop_body s' idx t)"
proof -
  from assms have f: "file_rows s' = file_rows s" "last_part s' = last_part s"
    "last_asm s' = last_asm s" "range_start s' = range_start s" "range_end s' = range_end s"
    by (simp_all add: run_of_def)
  show ?thesis
    by (auto simp add: run_of_def loop_body_def Let_def read_job_fields start_range_def
        flush_range_def f split: option.splits)
qed

lemma run_of_page_loop_filter:
  assumes "run_of s = run_of s'"
  shows "run_of (page_loop s ips) =
           run_of (page_loop s' (filter (\<lambda>(i, t). extract_first_part t \<noteq> None) ips))"
  using assms
proof (induction ips arbitrary: s s')
  case Nil
  then show ?case by simp
next
  case (Cons ip ips)
  obtain idx t where ip: "ip = (idx, t)" by (cases ip)
  show ?case
  proof (cases "extract_first_part t")
    case None
    from Cons.prems have "run_of (loop_body s idx t) = run_of s'"
      by (simp add: loop_body_no_part None run_of_read_job)
    then show ?thesis
      using None by (simp add: ip Cons.IH)
  next
    case (Some p)
    from Cons.prems have "run_of (loop_body s idx t) = run_of (loop_body s' idx t)"
      by (rule run_of_loop_body)
    then show ?thesis
      using Some by (simp add: ip Cons.IH)
  qed
qed

lemma file_rows_flush_run_of:
  "run_of s = run_of s' \<Longrightarrow> file_rows (flush_range s) = file_rows (flush_range s')"
  using run_of_flush_range [of s s'] by (simp add: run_of_def)

lemma run_of_eq:
  "(run_of s = (f, lp, la, a, b)) =
     (file_rows s = f \<and> last_part s = lp \<and> last_asm s = la
      \<and> range_start s = a \<and> range_end s = b)"
  by (simp add: run_of_def)

lemma loop_body_start:
  assumes "extract_first_part t = Some p" and "last_part s = None"
  shows "run_of (loop_body s idx t) =
           (file_rows s, Some p, Some (or_empty (extract_first_asm t)), Some idx, Some idx)"
proof -
  from assms(1) extract_first_part_not_empty [of t] have "p \<noteq> []" by auto
  with assms show ?thesis
    by (simp add: run_of_def loop_body_def Let_def read_job_fields start_range_def)
qed

lemma loop_body_extend:
  assumes "extract_first_part t = Some p" and "last_part s = Some p"
    and "last_asm s = Some (or_empty (extract_first_asm t))" and "range_end s = Some b"
  shows "run_of (loop_body s idx t) =
           (file_rows s, Some p, last_asm s, range_start s, Some idx)"
proof -
  from assms(1) extract_first_part_not_empty [of t] have "p \<noteq> []" by auto
  with assms show ?thesis
    by (simp add: run_of_def loop_body_def Let_def read_job_fields)
qed

lemma loop_body_split:
  assumes "extract_first_part t = Some p" and "last_part s = Some lp"
    and "last_asm s = Some la" and "range_start s = Some a" and "range_end s = Some b"
    and "p \<noteq> lp \<or> or_empty (extract_first_asm t) \<noteq> la"
  shows "run_of (loop_body s idx t) =
           (file_rows s @ [\<lparr>start_page = a, end_page = b, asm = la, part = lp\<rparr>],
            Some p, Some (or_empty (extract_first_asm t)), Some idx, Some idx)"
proof -
  from assms(1) extract_first_part_not_empty [of t] have "p \<noteq> []" by auto
  moreover have "flush_range (read_job s t) =
      (read_job s t)\<lparr>file_rows := file_rows s @
         [\<lparr>start_page = a, end_page = b, asm = la, part = lp\<rparr>]\<rparr>"
    using assms(2-5) by (simp add: flush_range_def read_job_fields or_empty_def)
  ultimately show ?thesis
    using assms
    by (auto simp add: run_of_def loop_body_def Let_def read_job_fields start_range_def)
qed

lemma range_ok_iff:
  "range_ok pages p y a b =
     (1 \<le> a \<and> a \<le> b \<and> b \<le> length pages \<and> (\<forall>i. a \<le> i \<and> i \<le> b \<longrightarrow> pair_ok pages p y i))"
  by (auto simp add: range_ok_def list_all_iff simp del: upt_Suc)

lemma range_ok_shrink:
  "range_ok pages p y a n \<Longrightarrow> a \<le> b \<Longrightarrow> b \<le> n \<Longrightarrow> range_ok pages p y a b"
  by (auto simp add: range_ok_iff)

lemma range_ok_grow:
  assumes "range_ok pages p y a n" and "n < length pages" and "pair_ok pages p y (Suc n)"
  shows "range_ok pages p y a (Suc n)"
proof -
  have "pair_ok pages p y i" if "a \<le> i" and "i \<le> Suc n" for i
  proof (cases "i = Suc n")
    case True
    with assms(3) show ?thesis by simp
  next
    case False
    with that have "i \<le> n" by simp
    with assms(1) that show ?thesis by (simp add: range_ok_iff)
  qed
  with assms show ?thesis by (simp add: range_ok_iff)
qed

lemma range_ok_single:
  assumes "n < length pages" and "extract_first_part (pages ! n) = Some p"
  shows "range_ok pages p (or_empty (extract_first_asm (pages ! n))) (Suc n) (Suc n)"
proof -
  from assms(2) have "pair_ok pages p (or_empty (extract_first_asm (pages ! n))) (Suc n)"
    by (simp add: pair_ok_def)
  moreover have "\<And>i. Suc n \<le> i \<and> i \<le> Suc n \<Longrightarrow> i = Suc n" by simp
  ultimately show ?thesis
    using assms(1) by (auto simp add: range_ok_iff)
qed

lemma loop_inv_run_of:
  assumes "run_of s = (f, lp, la, a, b)"
  shows "loop_inv pages n s =
     (list_all (record_ok pages) f \<and>
      (case lp of
         None \<Rightarrow> True
       | Some p \<Rightarrow>
           (case la of
              None \<Rightarrow> False
            | Some y \<Rightarrow>
                (case a of
                   None \<Rightarrow> False
                 | Some a' \<Rightarrow>
                     (case b of
                        None \<Rightarrow> False
                      | Some b' \<Rightarrow> a' \<le> b' \<and> b' \<le> n \<and> range_ok pages p y a' n)))))"
  using assms by (clarsimp simp add: run_of_eq loop_inv_def)

lemma loop_inv_step:
  assumes n: "n < length pages" and inv: "loop_inv pages n s"
  shows "loop_inv pages (Suc n) (loop_body s (Suc n) (pages ! n))"
proof (cases "extract_first_part (pages ! n)")
  case None
  then have ok: "\<And>p y. pair_ok pages p y (Suc n)" by (simp add: pair_ok_def)
  have "run_of (loop_body s (Suc n) (pages ! n)) = run_of s"
    using None by (simp add: loop_body_no_part run_of_read_job)
  then have r: "run_of (loop_body s (Suc n) (pages ! n))
      = (file_rows s, last_part s, last_asm s, range_start s, range_end s)"
    by (simp add: run_of_def)
  show ?thesis
    unfolding loop_inv_run_of [OF r]
    using inv n ok
    by (auto simp add: loop_inv_def range_ok_grow split: option.splits)
next
  case (Some p)
  let ?y = "or_empty (extract_first_asm (pages ! n))"
  from n Some have single: "range_ok pages p ?y (Suc n) (Suc n)"
    by (rule range_ok_single)
  from Some have here: "pair_ok pages p ?y (Suc n)" by (simp add: pair_ok_def)
  from inv have rows: "list_all (record_ok pages) (file_rows s)"
    by (simp add: loop_inv_def)
  show ?thesis
  proof (cases "last_part s")
    case None
    with Some have r: "run_of (loop_body s (Suc n) (pages ! n))
        = (file_rows s, Some p, Some ?y, Some (Suc n), Some (Suc n))"
      by (simp add: loop_body_start)
    show ?thesis
      unfolding loop_inv_run_of [OF r] using rows single by simp
  next
    case lp: (Some lp)
    with inv obtain la a b where st: "last_asm s = Some la" "range_start s = Some a"
        "range_end s = Some b" and ab: "a \<le> b" "b \<le> n" and run: "range_ok pages lp la a n"
      by (auto simp add: loop_inv_def split: option.splits)
    show ?thesis
    proof (cases "p = lp \<and> ?y = la")
      case True
      with Some lp st have r: "run_of (loop_body s (Suc n) (pages ! n))
          = (file_rows s, Some p, last_asm s, range_start s, Some (Suc n))"
        by (intro loop_body_extend) simp_all
      from run n here True have "range_ok pages p la a (Suc n)"
        by (simp add: range_ok_grow)
      with ab rows show ?thesis
        unfolding loop_inv_run_of [OF r] by (simp add: st)
    next
      case False
      then have "p \<noteq> lp \<or> ?y \<noteq> la" by simp
      with Some lp st have r: "run_of (loop_body s (Suc n) (pages ! n))
          = (file_rows s @ [\<lparr>start_page = a, end_page = b, asm = la, part = lp\<rparr>],
             Some p, Some ?y, Some (Suc n), Some (Suc n))"
        by (intro loop_body_split) simp_all
      from run ab have "record_ok pages \<lparr>start_page = a, end_page = b, asm = la, part = lp\<rparr>"
        by (simp add: record_ok_def range_ok_shrink)
      with rows single show ?thesis
        unfolding loop_inv_run_of [OF r] by simp
    qed
  qed
qed

lemma page_loop_take_Suc:
  assumes "n < length pages"
  shows "page_loop s (enumerate 1 (take (Suc n) pages))
           = loop_body (page_loop s (enumerate 1 (take n pages))) (Suc n) (pages ! n)"
proof -
  from assms have "take (Suc n) pages = take n pages @ [pages ! n]"
    by (rule take_Suc_conv_app_nth)
  moreover from assms have "length (take n pages) = n" by simp
  ultimately have "enumerate 1 (take (Suc n) pages)
      = enumerate 1 (take n pages) @ [(Suc n, pages ! n)]"
    by (simp add: enumerate_append_eq)
  then show ?thesis by (simp add: page_loop_append)
qed

lemma loop_inv_prefix:
  "n \<le> length pages \<Longrightarrow> loop_inv pages n (page_loop initial_state (enumerate 1 (take n pages)))"
proof (induction n)
  case 0
  then show ?case by (simp add: loop_inv_def initial_state_def)
next
  case (Suc n)
  then have n: "n < length pages" by simp
  with Suc have "loop_inv pages n (page_loop initial_state (enumerate 1 (take n pages)))"
    by simp
  with n show ?case
    by (simp only: page_loop_take_Suc loop_inv_step)
qed

lemma flush_range_records_ok:
  assumes "loop_inv pages n s"
  shows "list_all (record_ok pages) (file_rows (flush_range s))"
proof (cases "last_part s")
  case None
  with assms show ?thesis by (simp add: flush_range_def loop_inv_def)
next
  case (Some p)
  with assms obtain la a b where st: "last_asm s = Some la" "range_start s = Some a"
      "range_end s = Some b" and ab: "a \<le> b" "b \<le> n" and run: "range_ok pages p la a n"
    by (auto simp add: loop_inv_def split: option.splits)
  from run ab have "record_ok pages \<lparr>start_page = a, end_page = b, asm = la, part = p\<rparr>"
    by (simp add: record_ok_def range_ok_shrink)
  with assms Some st show ?thesis
    by (simp add: flush_range_def loop_inv_def or_empty_def)
qed

lemma compress_records_ok: "list_all (record_ok pages) (file_rows (compress pages))"
proof -
  have "loop_inv pages (length pages)
          (page_loop initial_state (enumerate 1 (take (length pages) pages)))"
    by (rule loop_inv_prefix) simp
  then have "loop_inv pages (length pages) (page_loop initial_state (enumerate 1 pages))"
    by simp
  then show ?thesis
    unfolding compress_def by (rule flush_range_records_ok)
qed

lemma row_line_not_job: "take 5 (row_line r) \<noteq> ''Job: ''"
  by (simp add: row_line_def page_label_def)

lemma job_lines_rows: "job_lines (map row_line rs) = []"
  by (induction rs) (simp_all add: job_lines_def row_line_not_job)

lemma job_lines_append: "job_lines (xs @ ys) = job_lines xs @ job_lines ys"
  by (simp add: job_lines_def)

lemma job_lines_file: "job_lines ((''File: '' @ name) # rows) = job_lines rows"
  by (simp add: job_lines_def)

lemma job_lines_job: "job_lines ((''Job: '' @ j) # rows) = (''Job: '' @ j) # job_lines rows"
  by (simp add: job_lines_def)

lemma compress_job_not_empty: "job_value (compress pages) \<noteq> Some []"
proof -
  have "\<forall>j \<in> set (List.map_filter extract_first_job pages). j \<noteq> []"
    using extract_first_value_not_empty
    by (auto simp add: List.map_filter_def extract_first_job_def)
  then show ?thesis
    by (auto simp add: compress_job split: list.splits)
qed

section \<open>The claims about \<open>extract_first_value\<close> and \<open>extract_first_part\<close>\<close>

text \<open>
  C6. When the pattern matches and its captured group is empty after \<open>strip\<close>, then
  \<open>extract_first_value\<close> returns \<open>None\<close>, the same result as when the pattern does not
  match at all. On the text \<open>Part:\<close>, three spaces and a newline, the second \<open>\s*\<close>
  gives one space back to the group, the group is that space, and the result is \<open>None\<close>.
\<close>

theorem extract_first_value_empty_is_absent:
  "(re_search label text = Some g \<and> strip g = [] \<longrightarrow> extract_first_value text label = None)
   \<and> (re_search label text = None \<longrightarrow> extract_first_value text label = None)
   \<and> re_search ''Part'' (''Part:   '' @ [CHR 0x0A]) = Some '' ''
   \<and> extract_first_value (''Part:   '' @ [CHR 0x0A]) ''Part'' = None"
proof (intro conjI impI)
  assume "re_search label text = Some g \<and> strip g = []"
  then show "extract_first_value text label = None"
    by (simp add: extract_first_value_def or_none_def)
next
  assume "re_search label text = None"
  then show "extract_first_value text label = None"
    by (simp add: extract_first_value_def)
next
  show "re_search ''Part'' (''Part:   '' @ [CHR 0x0A]) = Some '' ''"
    by code_simp
next
  show "extract_first_value (''Part:   '' @ [CHR 0x0A]) ''Part'' = None"
    by code_simp
qed

text \<open>An instance of the theorem on a concrete text.\<close>

theorem extract_first_value_empty_is_absent_witness:
  "re_search ''Job'' ''Job :  '' = Some '' '' \<and> strip '' '' = []
   \<and> extract_first_value ''Job :  '' ''Job'' = None"
proof -
  have h: "re_search ''Job'' ''Job :  '' = Some '' '' \<and> strip '' '' = []"
    by code_simp
  from extract_first_value_empty_is_absent [of "''Job''" "''Job :  ''" "'' ''"] h
  have "extract_first_value ''Job :  '' ''Job'' = None"
    by blast
  with h show ?thesis by blast
qed

text \<open>
  C7, as the code has it. \<open>extract_first_part\<close> is the \<open>Part\<close> value cut before its
  first slash and stripped when it has a slash, and left as it is when it has none;
  when what remains is empty the result is \<open>None\<close>, not the empty string. For
  \<open>Part: A123/B456\<close> the result is \<open>A123\<close>.
\<close>

theorem extract_first_part_first_segment:
  "extract_first_part text =
     (case extract_first_value text ''Part'' of
        None \<Rightarrow> None
      | Some v \<Rightarrow> if first_segment v = [] then None else Some (first_segment v))
   \<and> (CHR ''/'' \<in> set v \<longrightarrow> first_segment v = strip (takeWhile (\<lambda>c. c \<noteq> CHR ''/'') v))
   \<and> (CHR ''/'' \<notin> set v \<longrightarrow> first_segment v = v)
   \<and> extract_first_part ''Part: A123/B456'' = Some ''A123''"
proof (intro conjI)
  show "extract_first_part text =
     (case extract_first_value text ''Part'' of
        None \<Rightarrow> None
      | Some v \<Rightarrow> if first_segment v = [] then None else Some (first_segment v))"
  proof (cases "extract_first_value text ''Part''")
    case None
    then show ?thesis by (simp add: extract_first_part_def)
  next
    case (Some v)
    with extract_first_value_not_empty [of "text" "''Part''"] have "v \<noteq> []" by auto
    with Some show ?thesis
      by (simp add: extract_first_part_def or_none_def)
  qed
next
  show "CHR ''/'' \<in> set v \<longrightarrow> first_segment v = strip (takeWhile (\<lambda>c. c \<noteq> CHR ''/'') v)"
    by (simp add: first_segment_def)
next
  show "CHR ''/'' \<notin> set v \<longrightarrow> first_segment v = v"
    by (simp add: first_segment_def)
next
  show "extract_first_part ''Part: A123/B456'' = Some ''A123''"
    by code_simp
qed

text \<open>An instance of the theorem on a concrete text.\<close>

theorem extract_first_part_first_segment_witness:
  "CHR ''/'' \<in> set ''P7 / Q8'' \<and> first_segment ''P7 / Q8'' = ''P7''
   \<and> extract_first_part ''part : P7 / Q8'' = Some ''P7''"
proof -
  have h: "CHR ''/'' \<in> set ''P7 / Q8''" by simp
  have s: "strip (takeWhile (\<lambda>c. c \<noteq> CHR ''/'') ''P7 / Q8'') = ''P7''" by code_simp
  have v: "extract_first_value ''part : P7 / Q8'' ''Part'' = Some ''P7 / Q8''" by code_simp
  note t = extract_first_part_first_segment [of "''part : P7 / Q8''" "''P7 / Q8''"]
  from t h s have f: "first_segment ''P7 / Q8'' = ''P7''" by simp
  from t have "extract_first_part ''part : P7 / Q8'' =
     (case extract_first_value ''part : P7 / Q8'' ''Part'' of
        None \<Rightarrow> None
      | Some v \<Rightarrow> if first_segment v = [] then None else Some (first_segment v))"
    by (rule conjunct1)
  with v f have "extract_first_part ''part : P7 / Q8'' = Some ''P7''" by simp
  with h f show ?thesis by blast
qed

text \<open>
  C7 as stated says that the result is the cut and stripped value whenever the
  \<open>Part\<close> value is present. On \<open>Part: /B456\<close> the value is \<open>/B456\<close>, the cut leaves the
  empty string, and \<open>return value or None\<close> turns it into \<open>None\<close>.
\<close>

theorem extract_first_part_empty_segment:
  "extract_first_part ''Part: /B456'' = None
   \<and> map_option first_segment (extract_first_value ''Part: /B456'' ''Part'') = Some []"
  by code_simp






text \<open>
  C10. The white space that the pattern accepts before and after the colon is any
  run of \<open>\s\<close> characters, and the newline and the carriage return are among them: for
  a label that begins with a word character, white space \<open>ws1\<close> and \<open>ws2\<close>, and a value
  that begins with a character other than white space and holds no line terminator,
  the text made of the label, \<open>ws1\<close>, the colon, \<open>ws2\<close> and the value gives the stripped
  value. So the text \<open>Part:\<close>, a newline, \<open>A1\<close> gives \<open>A1\<close>.
\<close>

theorem extract_first_value_spans_lines:
  "(label \<noteq> [] \<and> isword (hd label) \<and> list_all isspace ws1 \<and> list_all isspace ws2
      \<and> \<not> isspace c \<and> list_all (\<lambda>d. \<not> is_newline d) v
    \<longrightarrow> extract_first_value (label @ ws1 @ '':'' @ ws2 @ c # v) label = Some (strip (c # v)))
   \<and> isspace (CHR 0x0A) \<and> isspace (CHR 0x0D)
   \<and> extract_first_value (''Part:'' @ [CHR 0x0A] @ ''A1'') ''Part'' = Some ''A1''"
proof (intro conjI impI)
  assume h: "label \<noteq> [] \<and> isword (hd label) \<and> list_all isspace ws1 \<and> list_all isspace ws2
      \<and> \<not> isspace c \<and> list_all (\<lambda>d. \<not> is_newline d) v"
  let ?t = "label @ ws1 @ '':'' @ ws2 @ c # v"
  from h have nn: "\<not> is_newline c" using newline_isspace by blast
  with h have tw: "takeWhile (\<lambda>d. \<not> is_newline d) (c # v) = c # v"
    by (simp add: list_all_iff)
  from h have "after_colon (ws2 @ c # v) = Some (takeWhile (\<lambda>d. \<not> is_newline d) (c # v))"
    by (simp add: after_colon_value)
  with tw have ac: "after_colon (ws2 @ c # v) = Some (c # v)" by simp
  from h ac have cv: "colon_value (ws1 @ CHR '':'' # ws2 @ c # v) (length ws1) = Some (c # v)"
    by (simp add: colon_value_found)
  from h have sp: "takeWhile isspace (ws1 @ CHR '':'' # ws2 @ c # v) = ws1"
    by (simp add: takeWhile_spaces not_space_colon)
  from h obtain l ls where l: "label = l # ls" by (cases label) auto
  with h have b: "at_boundary None ?t" by (simp add: at_boundary_def)
  have ml: "match_label label ?t = Some (ws1 @ CHR '':'' # ws2 @ c # v)"
    using match_label_self [of label "ws1 @ CHR '':'' # ws2 @ c # v"] by simp
  from b ml cv sp have "match_here None label ?t = Some (c # v)"
    by (simp add: match_here_def)
  then have "re_search label ?t = Some (c # v)"
    unfolding re_search_def by (rule search_from_here)
  moreover from h have "strip (c # v) \<noteq> []" by (simp add: strip_not_empty)
  ultimately show "extract_first_value ?t label = Some (strip (c # v))"
    by (simp add: extract_first_value_def or_none_def)
next
  show "isspace (CHR 0x0A)" by (simp add: isspace_def)
next
  show "isspace (CHR 0x0D)" by (simp add: isspace_def)
next
  show "extract_first_value (''Part:'' @ [CHR 0x0A] @ ''A1'') ''Part'' = Some ''A1''"
    by code_simp
qed

text \<open>
  An instance of the theorem: a newline before the colon, a carriage return and a
  newline after it.
\<close>

theorem extract_first_value_spans_lines_witness:
  "extract_first_value (''Asm'' @ [CHR 0x0A] @ '':'' @ [CHR 0x0D, CHR 0x0A] @ ''A1 '') ''Asm''
     = Some ''A1''"
proof -
  have h: "''Asm'' \<noteq> [] \<and> isword (hd ''Asm'') \<and> list_all isspace [CHR 0x0A]
      \<and> list_all isspace [CHR 0x0D, CHR 0x0A]
      \<and> \<not> isspace CHR ''A'' \<and> list_all (\<lambda>d. \<not> is_newline d) ''1 ''"
    by code_simp
  from extract_first_value_spans_lines
         [of "''Asm''" "[CHR 0x0A]" "[CHR 0x0D, CHR 0x0A]" "CHR ''A''" "''1 ''"] h
  have "extract_first_value (''Asm'' @ [CHR 0x0A] @ '':'' @ [CHR 0x0D, CHR 0x0A] @ ''A1 '') ''Asm''
          = Some (strip ''A1 '')"
    by simp
  also have "strip ''A1 '' = ''A1''" by code_simp
  finally show ?thesis .
qed

section \<open>The claims about the page loop\<close>

text \<open>
  C1. For three pages of which the first and the third give part \<open>x\<close> and asm \<open>y\<close>
  (an absent asm counted as the empty string) and the second gives no part, the rows of
  the file are the one record of pages 1 to 3 with \<open>y\<close> and \<open>x\<close>. In general a page
  that gives no part leaves the rows and the open range as they were: it ends no range,
  extends none and starts none; and the rows of any run of the loop are those of the run
  over its pages that give a part, each under its own index.
\<close>

theorem compress_skips_pages_without_part:
  "(extract_first_part p1 = Some x \<and> or_empty (extract_first_asm p1) = y
      \<and> extract_first_part p2 = None
      \<and> extract_first_part p3 = Some x \<and> or_empty (extract_first_asm p3) = y
    \<longrightarrow> file_rows (compress [p1, p2, p3])
          = [\<lparr>start_page = 1, end_page = 3, asm = y, part = x\<rparr>])
   \<and> (extract_first_part t = None
      \<longrightarrow> file_rows (loop_body s idx t) = file_rows s
          \<and> last_part (loop_body s idx t) = last_part s
          \<and> last_asm (loop_body s idx t) = last_asm s
          \<and> range_start (loop_body s idx t) = range_start s
          \<and> range_end (loop_body s idx t) = range_end s)
   \<and> file_rows (flush_range (page_loop s ips))
       = file_rows (flush_range
           (page_loop s (filter (\<lambda>(i, t). extract_first_part t \<noteq> None) ips)))"
proof (intro conjI impI)
  assume h: "extract_first_part p1 = Some x \<and> or_empty (extract_first_asm p1) = y
      \<and> extract_first_part p2 = None
      \<and> extract_first_part p3 = Some x \<and> or_empty (extract_first_asm p3) = y"
  with extract_first_part_not_empty [of p1] have x: "x \<noteq> []" by auto
  let ?s1 = "loop_body initial_state 1 p1"
  have "last_part initial_state = None" "file_rows initial_state = []"
    by (simp_all add: initial_state_def)
  with h have s1: "run_of ?s1 = ([], Some x, Some y, Some 1, Some 1)"
    by (simp add: loop_body_start)
  let ?s2 = "loop_body ?s1 2 p2"
  have s2: "run_of ?s2 = ([], Some x, Some y, Some 1, Some 1)"
    using h s1 by (simp add: loop_body_no_part run_of_read_job)
  let ?s3 = "loop_body ?s2 3 p3"
  from s2 have f2: "file_rows ?s2 = []" "last_part ?s2 = Some x" "last_asm ?s2 = Some y"
    "range_start ?s2 = Some 1" "range_end ?s2 = Some 1"
    by (simp_all only: run_of_eq)
  from h f2 have "run_of ?s3 = (file_rows ?s2, Some x, last_asm ?s2, range_start ?s2, Some 3)"
    by (intro loop_body_extend) simp_all
  with f2 have s3: "run_of ?s3 = ([], Some x, Some y, Some 1, Some 3)"
    by (simp only:)
  from s3 have f3: "file_rows ?s3 = []" "last_part ?s3 = Some x" "last_asm ?s3 = Some y"
    "range_start ?s3 = Some 1" "range_end ?s3 = Some 3"
    by (simp_all only: run_of_eq)
  have "compress [p1, p2, p3] = flush_range ?s3"
    by (simp add: compress_def enumerate_simps eval_nat_numeral)
  then show "file_rows (compress [p1, p2, p3])
          = [\<lparr>start_page = 1, end_page = 3, asm = y, part = x\<rparr>]"
    using f3 by (simp add: flush_range_def or_empty_def)
next
  assume "extract_first_part t = None"
  then have e: "loop_body s idx t = read_job s t" by (rule loop_body_no_part)
  show "file_rows (loop_body s idx t) = file_rows s" by (simp add: e read_job_fields)
  show "last_part (loop_body s idx t) = last_part s" by (simp add: e read_job_fields)
  show "last_asm (loop_body s idx t) = last_asm s" by (simp add: e read_job_fields)
  show "range_start (loop_body s idx t) = range_start s" by (simp add: e read_job_fields)
  show "range_end (loop_body s idx t) = range_end s" by (simp add: e read_job_fields)
next
  have "run_of (page_loop s ips) =
          run_of (page_loop s (filter (\<lambda>(i, t). extract_first_part t \<noteq> None) ips))"
    by (rule run_of_page_loop_filter) simp
  then show "file_rows (flush_range (page_loop s ips))
       = file_rows (flush_range
           (page_loop s (filter (\<lambda>(i, t). extract_first_part t \<noteq> None) ips)))"
    by (rule file_rows_flush_run_of)
qed

text \<open>An instance of the theorem on three concrete pages.\<close>

theorem compress_skips_pages_without_part_witness:
  "extract_first_part (''Part: X1'' @ [CHR 0x0A] @ ''Asm: Y1'') = Some ''X1''
   \<and> or_empty (extract_first_asm (''Part: X1'' @ [CHR 0x0A] @ ''Asm: Y1'')) = ''Y1''
   \<and> extract_first_part ''Job: 7'' = None
   \<and> extract_first_part (''asm: Y1'' @ [CHR 0x0A] @ ''part: X1'') = Some ''X1''
   \<and> or_empty (extract_first_asm (''asm: Y1'' @ [CHR 0x0A] @ ''part: X1'')) = ''Y1''
   \<and> file_rows (compress [''Part: X1'' @ [CHR 0x0A] @ ''Asm: Y1'', ''Job: 7'',
                             ''asm: Y1'' @ [CHR 0x0A] @ ''part: X1''])
       = [\<lparr>start_page = 1, end_page = 3, asm = ''Y1'', part = ''X1''\<rparr>]"
proof -
  let ?p1 = "''Part: X1'' @ [CHR 0x0A] @ ''Asm: Y1''"
  let ?p3 = "''asm: Y1'' @ [CHR 0x0A] @ ''part: X1''"
  have h: "extract_first_part ?p1 = Some ''X1'' \<and> or_empty (extract_first_asm ?p1) = ''Y1''
      \<and> extract_first_part ''Job: 7'' = None
      \<and> extract_first_part ?p3 = Some ''X1'' \<and> or_empty (extract_first_asm ?p3) = ''Y1''"
    by code_simp
  from compress_skips_pages_without_part
         [where ?p1.0 = ?p1 and ?p2.0 = "''Job: 7''" and ?p3.0 = ?p3 and x = "''X1''" and y = "''Y1''"] h
  have "file_rows (compress [?p1, ''Job: 7'', ?p3])
       = [\<lparr>start_page = 1, end_page = 3, asm = ''Y1'', part = ''X1''\<rparr>]"
    by blast
  with h show ?thesis by blast
qed

text \<open>
  C2. For three pages that give the parts \<open>x\<close>, \<open>x\<close>, \<open>z\<close> with \<open>z\<close> different from \<open>x\<close>,
  and all the asm \<open>y\<close>, the rows of the file are the record of pages 1 to 2 with \<open>x\<close>
  and the record of page 3 with \<open>z\<close>. In general, when a page gives a part and its pair
  of part and asm differs from that of the open range, the open range is appended to the
  rows as a record and a new range starts and ends at the index of that page.
\<close>

theorem compress_splits_on_change:
  "(extract_first_part p1 = Some x \<and> or_empty (extract_first_asm p1) = y
      \<and> extract_first_part p2 = Some x \<and> or_empty (extract_first_asm p2) = y
      \<and> extract_first_part p3 = Some z \<and> or_empty (extract_first_asm p3) = y
      \<and> z \<noteq> x
    \<longrightarrow> file_rows (compress [p1, p2, p3])
          = [\<lparr>start_page = 1, end_page = 2, asm = y, part = x\<rparr>,
             \<lparr>start_page = 3, end_page = 3, asm = y, part = z\<rparr>])
   \<and> (extract_first_part t = Some p
        \<and> last_part s = Some lp \<and> last_asm s = Some la
        \<and> range_start s = Some a \<and> range_end s = Some b
        \<and> (p \<noteq> lp \<or> or_empty (extract_first_asm t) \<noteq> la)
      \<longrightarrow> file_rows (loop_body s idx t)
            = file_rows s @ [\<lparr>start_page = a, end_page = b, asm = la, part = lp\<rparr>]
          \<and> last_part (loop_body s idx t) = Some p
          \<and> last_asm (loop_body s idx t) = Some (or_empty (extract_first_asm t))
          \<and> range_start (loop_body s idx t) = Some idx
          \<and> range_end (loop_body s idx t) = Some idx)"
proof (intro conjI impI)
  assume h: "extract_first_part p1 = Some x \<and> or_empty (extract_first_asm p1) = y
      \<and> extract_first_part p2 = Some x \<and> or_empty (extract_first_asm p2) = y
      \<and> extract_first_part p3 = Some z \<and> or_empty (extract_first_asm p3) = y
      \<and> z \<noteq> x"
  let ?s1 = "loop_body initial_state 1 p1"
  have "last_part initial_state = None" "file_rows initial_state = []"
    by (simp_all add: initial_state_def)
  with h have s1: "run_of ?s1 = ([], Some x, Some y, Some 1, Some 1)"
    by (simp add: loop_body_start)
  then have f1: "file_rows ?s1 = []" "last_part ?s1 = Some x" "last_asm ?s1 = Some y"
    "range_start ?s1 = Some 1" "range_end ?s1 = Some 1"
    by (simp_all only: run_of_eq)
  let ?s2 = "loop_body ?s1 2 p2"
  from h f1 have "run_of ?s2 = (file_rows ?s1, Some x, last_asm ?s1, range_start ?s1, Some 2)"
    by (intro loop_body_extend) simp_all
  with f1 have s2: "run_of ?s2 = ([], Some x, Some y, Some 1, Some 2)"
    by (simp only:)
  then have f2: "file_rows ?s2 = []" "last_part ?s2 = Some x" "last_asm ?s2 = Some y"
    "range_start ?s2 = Some 1" "range_end ?s2 = Some 2"
    by (simp_all only: run_of_eq)
  let ?s3 = "loop_body ?s2 3 p3"
  from h f2 have "run_of ?s3 =
      (file_rows ?s2 @ [\<lparr>start_page = 1, end_page = 2, asm = y, part = x\<rparr>],
       Some z, Some (or_empty (extract_first_asm p3)), Some 3, Some 3)"
    by (intro loop_body_split) simp_all
  with h f2 have s3: "run_of ?s3 =
      ([\<lparr>start_page = 1, end_page = 2, asm = y, part = x\<rparr>],
       Some z, Some y, Some 3, Some 3)"
    by simp
  then have f3: "file_rows ?s3 = [\<lparr>start_page = 1, end_page = 2, asm = y, part = x\<rparr>]"
    "last_part ?s3 = Some z" "last_asm ?s3 = Some y"
    "range_start ?s3 = Some 3" "range_end ?s3 = Some 3"
    by (simp_all only: run_of_eq)
  have "compress [p1, p2, p3] = flush_range ?s3"
    by (simp add: compress_def enumerate_simps eval_nat_numeral)
  then show "file_rows (compress [p1, p2, p3])
          = [\<lparr>start_page = 1, end_page = 2, asm = y, part = x\<rparr>,
             \<lparr>start_page = 3, end_page = 3, asm = y, part = z\<rparr>]"
    using f3 by (simp add: flush_range_def or_empty_def)
next
  assume h: "extract_first_part t = Some p
        \<and> last_part s = Some lp \<and> last_asm s = Some la
        \<and> range_start s = Some a \<and> range_end s = Some b
        \<and> (p \<noteq> lp \<or> or_empty (extract_first_asm t) \<noteq> la)"
  then have "run_of (loop_body s idx t) =
           (file_rows s @ [\<lparr>start_page = a, end_page = b, asm = la, part = lp\<rparr>],
            Some p, Some (or_empty (extract_first_asm t)), Some idx, Some idx)"
    by (intro loop_body_split) simp_all
  then have f: "file_rows (loop_body s idx t)
            = file_rows s @ [\<lparr>start_page = a, end_page = b, asm = la, part = lp\<rparr>]"
    "last_part (loop_body s idx t) = Some p"
    "last_asm (loop_body s idx t) = Some (or_empty (extract_first_asm t))"
    "range_start (loop_body s idx t) = Some idx"
    "range_end (loop_body s idx t) = Some idx"
    by (simp_all only: run_of_eq)
  show "file_rows (loop_body s idx t)
            = file_rows s @ [\<lparr>start_page = a, end_page = b, asm = la, part = lp\<rparr>]"
    by (rule f)
  show "last_part (loop_body s idx t) = Some p" by (rule f)
  show "last_asm (loop_body s idx t) = Some (or_empty (extract_first_asm t))" by (rule f)
  show "range_start (loop_body s idx t) = Some idx" by (rule f)
  show "range_end (loop_body s idx t) = Some idx" by (rule f)
qed

text \<open>An instance of the theorem on three concrete pages.\<close>

theorem compress_splits_on_change_witness:
  "extract_first_part (''Part: X1'' @ [CHR 0x0A] @ ''Asm: Y1'') = Some ''X1''
   \<and> or_empty (extract_first_asm (''Part: X1'' @ [CHR 0x0A] @ ''Asm: Y1'')) = ''Y1''
   \<and> extract_first_part (''Part: Z9'' @ [CHR 0x0A] @ ''Asm: Y1'') = Some ''Z9''
   \<and> or_empty (extract_first_asm (''Part: Z9'' @ [CHR 0x0A] @ ''Asm: Y1'')) = ''Y1''
   \<and> ''Z9'' \<noteq> ''X1''
   \<and> file_rows (compress [''Part: X1'' @ [CHR 0x0A] @ ''Asm: Y1'',
                             ''Part: X1'' @ [CHR 0x0A] @ ''Asm: Y1'',
                             ''Part: Z9'' @ [CHR 0x0A] @ ''Asm: Y1''])
       = [\<lparr>start_page = 1, end_page = 2, asm = ''Y1'', part = ''X1''\<rparr>,
          \<lparr>start_page = 3, end_page = 3, asm = ''Y1'', part = ''Z9''\<rparr>]"
proof -
  let ?p1 = "''Part: X1'' @ [CHR 0x0A] @ ''Asm: Y1''"
  let ?p3 = "''Part: Z9'' @ [CHR 0x0A] @ ''Asm: Y1''"
  have h: "extract_first_part ?p1 = Some ''X1'' \<and> or_empty (extract_first_asm ?p1) = ''Y1''
      \<and> extract_first_part ?p3 = Some ''Z9'' \<and> or_empty (extract_first_asm ?p3) = ''Y1''
      \<and> ''Z9'' \<noteq> ''X1''"
    by code_simp
  from compress_splits_on_change
         [where ?p1.0 = ?p1 and ?p2.0 = ?p1 and ?p3.0 = ?p3
            and x = "''X1''" and y = "''Y1''" and z = "''Z9''"] h
  have "file_rows (compress [?p1, ?p1, ?p3])
       = [\<lparr>start_page = 1, end_page = 2, asm = ''Y1'', part = ''X1''\<rparr>,
          \<lparr>start_page = 3, end_page = 3, asm = ''Y1'', part = ''Z9''\<rparr>]"
    by blast
  with h show ?thesis by blast
qed

text \<open>
  C4. The job of a file is the first job value that \<open>extract_first_job\<close> finds, going
  through the pages in order; it is never the empty string, and pages that come after do
  not change it. When the first of three pages has no job, the second has \<open>1001\<close> and the
  third \<open>9999\<close>, the job is \<open>1001\<close>.
\<close>

theorem compress_job_first_wins:
  "job_value (compress pages) =
     (case List.map_filter extract_first_job pages of [] \<Rightarrow> None | j # _ \<Rightarrow> Some j)
   \<and> job_value (compress pages) \<noteq> Some []
   \<and> (job_value (compress pages) = Some j \<longrightarrow> job_value (compress (pages @ later)) = Some j)
   \<and> (extract_first_job p1 = None \<and> extract_first_job p2 = Some ''1001''
        \<and> extract_first_job p3 = Some ''9999''
      \<longrightarrow> job_value (compress [p1, p2, p3]) = Some ''1001'')"
proof (intro conjI impI)
  show "job_value (compress pages) =
     (case List.map_filter extract_first_job pages of [] \<Rightarrow> None | j # _ \<Rightarrow> Some j)"
    by (rule compress_job)
next
  have "\<forall>j \<in> set (List.map_filter extract_first_job pages). j \<noteq> []"
    using extract_first_value_not_empty
    by (auto simp add: List.map_filter_def extract_first_job_def)
  then show "job_value (compress pages) \<noteq> Some []"
    by (auto simp add: compress_job split: list.splits)
next
  assume "job_value (compress pages) = Some j"
  then show "job_value (compress (pages @ later)) = Some j"
    by (auto simp add: compress_job List.map_filter_def split: list.splits)
next
  assume "extract_first_job p1 = None \<and> extract_first_job p2 = Some ''1001''
        \<and> extract_first_job p3 = Some ''9999''"
  then show "job_value (compress [p1, p2, p3]) = Some ''1001''"
    by (simp add: compress_job map_filter_simps)
qed

text \<open>An instance of the theorem on three concrete pages.\<close>

theorem compress_job_first_wins_witness:
  "extract_first_job ''Part: P1'' = None
   \<and> extract_first_job ''Job: 1001'' = Some ''1001''
   \<and> extract_first_job ''Job: 9999'' = Some ''9999''
   \<and> job_value (compress [''Part: P1'', ''Job: 1001'', ''Job: 9999'']) = Some ''1001''"
proof -
  have h: "extract_first_job ''Part: P1'' = None
     \<and> extract_first_job ''Job: 1001'' = Some ''1001''
     \<and> extract_first_job ''Job: 9999'' = Some ''9999''"
    by code_simp
  from compress_job_first_wins [of _ _ _ "''Part: P1''" "''Job: 1001''" "''Job: 9999''"] h
  have "job_value (compress [''Part: P1'', ''Job: 1001'', ''Job: 9999'']) = Some ''1001''"
    by blast
  with h show ?thesis by blast
qed

text \<open>
  C3. Every record among the rows of a file has \<open>start_page \<le> end_page\<close>, lies within
  the pages of the file, and every page with an index from \<open>start_page\<close> to \<open>end_page\<close>
  that gives a part gives the part of the record, and gives its asm, an absent asm
  counted as the empty string.
\<close>

theorem compress_records_invariant:
  "\<forall>r \<in> set (file_rows (compress pages)).
     start_page r \<le> end_page r
     \<and> 1 \<le> start_page r \<and> end_page r \<le> length pages
     \<and> (\<forall>i q. start_page r \<le> i \<and> i \<le> end_page r
                \<and> extract_first_part (pages ! (i - 1)) = Some q
            \<longrightarrow> q = part r \<and> or_empty (extract_first_asm (pages ! (i - 1))) = asm r)"
proof
  fix r assume "r \<in> set (file_rows (compress pages))"
  with compress_records_ok [of pages] have "record_ok pages r"
    by (simp add: list_all_iff)
  then have b: "1 \<le> start_page r" "start_page r \<le> end_page r" "end_page r \<le> length pages"
    and ok: "\<And>i. start_page r \<le> i \<and> i \<le> end_page r \<Longrightarrow> pair_ok pages (part r) (asm r) i"
    by (simp_all add: record_ok_def range_ok_iff)
  have "q = part r \<and> or_empty (extract_first_asm (pages ! (i - 1))) = asm r"
    if "start_page r \<le> i \<and> i \<le> end_page r \<and> extract_first_part (pages ! (i - 1)) = Some q"
    for i q
    using ok [of i] that by (simp add: pair_ok_def)
  with b show "start_page r \<le> end_page r
     \<and> 1 \<le> start_page r \<and> end_page r \<le> length pages
     \<and> (\<forall>i q. start_page r \<le> i \<and> i \<le> end_page r
                \<and> extract_first_part (pages ! (i - 1)) = Some q
            \<longrightarrow> q = part r \<and> or_empty (extract_first_asm (pages ! (i - 1))) = asm r)"
    by blast
qed

text \<open>An instance of the theorem: four pages, the second without a part.\<close>

theorem compress_records_invariant_witness:
  "file_rows (compress [''Part: P1'' @ [CHR 0x0A] @ ''Asm: A1'', ''Job: 12'',
                        ''Asm: A1'' @ [CHR 0x0A] @ ''Part: P1'', ''Part: P2''])
     = [\<lparr>start_page = 1, end_page = 3, asm = ''A1'', part = ''P1''\<rparr>,
        \<lparr>start_page = 4, end_page = 4, asm = [], part = ''P2''\<rparr>]
   \<and> extract_first_part
        ([''Part: P1'' @ [CHR 0x0A] @ ''Asm: A1'', ''Job: 12'',
          ''Asm: A1'' @ [CHR 0x0A] @ ''Part: P1'', ''Part: P2''] ! (3 - 1)) = Some ''P1''
   \<and> or_empty (extract_first_asm
        ([''Part: P1'' @ [CHR 0x0A] @ ''Asm: A1'', ''Job: 12'',
          ''Asm: A1'' @ [CHR 0x0A] @ ''Part: P1'', ''Part: P2''] ! (3 - 1))) = ''A1''"
proof -
  let ?ps = "[''Part: P1'' @ [CHR 0x0A] @ ''Asm: A1'', ''Job: 12'',
              ''Asm: A1'' @ [CHR 0x0A] @ ''Part: P1'', ''Part: P2'']"
  let ?r = "\<lparr>start_page = 1, end_page = 3, asm = ''A1'', part = ''P1''\<rparr>"
  have rows: "file_rows (compress ?ps)
     = [?r, \<lparr>start_page = 4, end_page = 4, asm = [], part = ''P2''\<rparr>]"
    by code_simp
  have q: "extract_first_part (?ps ! (3 - 1)) = Some ''P1''"
    by code_simp
  from rows have "?r \<in> set (file_rows (compress ?ps))" by simp
  with compress_records_invariant [of ?ps]
  have "\<forall>i q. start_page ?r \<le> i \<and> i \<le> end_page ?r
                \<and> extract_first_part (?ps ! (i - 1)) = Some q
            \<longrightarrow> q = part ?r \<and> or_empty (extract_first_asm (?ps ! (i - 1))) = asm ?r"
    by blast
  then have "start_page ?r \<le> 3 \<and> 3 \<le> end_page ?r
                \<and> extract_first_part (?ps ! (3 - 1)) = Some ''P1''
            \<longrightarrow> ''P1'' = part ?r \<and> or_empty (extract_first_asm (?ps ! (3 - 1))) = asm ?r"
    by blast
  moreover have "start_page ?r \<le> 3 \<and> 3 \<le> end_page ?r" by simp
  ultimately have "or_empty (extract_first_asm (?ps ! (3 - 1))) = asm ?r"
    using q by blast
  then have "or_empty (extract_first_asm (?ps ! (3 - 1))) = ''A1''" by simp
  with rows q show ?thesis by blast
qed

text \<open>
  C5, as the code has it. A file with at least one record adds to the rows: the line
  \<open>Job:\<close> with the job when a job was found, and exactly one such line; then the line
  \<open>File:\<close>, the lines of the records and an empty line. Without a job it adds no \<open>Job:\<close>
  line. A file with no record adds no line at all, whether a job was found or not.
\<close>

theorem pdf_rows_job_header:
  "(file_rows (compress pages) \<noteq> [] \<and> job_value (compress pages) = Some j
      \<longrightarrow> pdf_rows name pages
            = (''Job: '' @ j) # (''File: '' @ name)
                # map row_line (file_rows (compress pages)) @ [[]]
          \<and> job_lines (pdf_rows name pages) = [''Job: '' @ j])
   \<and> (file_rows (compress pages) \<noteq> [] \<and> job_value (compress pages) = None
      \<longrightarrow> pdf_rows name pages
            = (''File: '' @ name) # map row_line (file_rows (compress pages)) @ [[]]
          \<and> job_lines (pdf_rows name pages) = [])
   \<and> (file_rows (compress pages) = [] \<longrightarrow> pdf_rows name pages = [])"
proof (intro conjI impI)
  assume h: "file_rows (compress pages) \<noteq> [] \<and> job_value (compress pages) = Some j"
  with compress_job_not_empty [of pages] have j: "j \<noteq> []" by auto
  from h j show e: "pdf_rows name pages
            = (''Job: '' @ j) # (''File: '' @ name)
                # map row_line (file_rows (compress pages)) @ [[]]"
    by (simp add: pdf_rows_def Let_def)
  have "job_lines [[]] = []" by (simp add: job_lines_def)
  then show "job_lines (pdf_rows name pages) = [''Job: '' @ j]"
    by (simp only: e job_lines_job job_lines_file job_lines_append job_lines_rows append_Nil)
next
  assume h: "file_rows (compress pages) \<noteq> [] \<and> job_value (compress pages) = None"
  then show e: "pdf_rows name pages
            = (''File: '' @ name) # map row_line (file_rows (compress pages)) @ [[]]"
    by (simp add: pdf_rows_def Let_def)
  have "job_lines [[]] = []" by (simp add: job_lines_def)
  then show "job_lines (pdf_rows name pages) = []"
    by (simp only: e job_lines_file job_lines_append job_lines_rows append_Nil)
next
  assume "file_rows (compress pages) = []"
  then show "pdf_rows name pages = []"
    by (simp add: pdf_rows_def Let_def)
qed

text \<open>An instance of the theorem: the three pages of the end-to-end scenario.\<close>

theorem pdf_rows_job_header_witness:
  "file_rows (compress [''Job: 500'' @ [CHR 0x0A] @ ''Asm: A1'' @ [CHR 0x0A] @ ''Part: P1'',
                        ''Part: P1'' @ [CHR 0x0A] @ ''Asm: A1'',
                        ''Part: P2'' @ [CHR 0x0A] @ ''Asm: A1''])
     = [\<lparr>start_page = 1, end_page = 2, asm = ''A1'', part = ''P1''\<rparr>,
        \<lparr>start_page = 3, end_page = 3, asm = ''A1'', part = ''P2''\<rparr>]
   \<and> job_value (compress [''Job: 500'' @ [CHR 0x0A] @ ''Asm: A1'' @ [CHR 0x0A] @ ''Part: P1'',
                        ''Part: P1'' @ [CHR 0x0A] @ ''Asm: A1'',
                        ''Part: P2'' @ [CHR 0x0A] @ ''Asm: A1'']) = Some ''500''
   \<and> pdf_rows ''t.pdf'' [''Job: 500'' @ [CHR 0x0A] @ ''Asm: A1'' @ [CHR 0x0A] @ ''Part: P1'',
                        ''Part: P1'' @ [CHR 0x0A] @ ''Asm: A1'',
                        ''Part: P2'' @ [CHR 0x0A] @ ''Asm: A1'']
     = [''Job: 500'', ''File: t.pdf'', ''Page 1-2  Asm: A1  Part: P1'',
        ''Page 3  Asm: A1  Part: P2'', []]"
proof -
  let ?ps = "[''Job: 500'' @ [CHR 0x0A] @ ''Asm: A1'' @ [CHR 0x0A] @ ''Part: P1'',
              ''Part: P1'' @ [CHR 0x0A] @ ''Asm: A1'',
              ''Part: P2'' @ [CHR 0x0A] @ ''Asm: A1'']"
  have r: "file_rows (compress ?ps)
     = [\<lparr>start_page = 1, end_page = 2, asm = ''A1'', part = ''P1''\<rparr>,
        \<lparr>start_page = 3, end_page = 3, asm = ''A1'', part = ''P2''\<rparr>]"
    by code_simp
  have j: "job_value (compress ?ps) = Some ''500''"
    by code_simp
  from r have n: "file_rows (compress ?ps) \<noteq> []" by simp
  from pdf_rows_job_header [of ?ps "''500''" "''t.pdf''"] n j
  have "pdf_rows ''t.pdf'' ?ps
          = (''Job: '' @ ''500'') # (''File: '' @ ''t.pdf'')
              # map row_line (file_rows (compress ?ps)) @ [[]]"
    by blast
  also have "\<dots> = [''Job: 500'', ''File: t.pdf'', ''Page 1-2  Asm: A1  Part: P1'',
        ''Page 3  Asm: A1  Part: P2'', []]"
    unfolding r by code_simp
  finally show ?thesis using r j by blast
qed

text \<open>
  C5 as stated makes the header depend on the job alone. The one page \<open>Job: 500\<close> has
  a job and no part: \<open>if file_rows:\<close> is false, and no header line is written.
\<close>

theorem pdf_rows_job_header_counterexample:
  "job_value (compress [''Job: 500'']) = Some ''500''
   \<and> pdf_rows ''f.pdf'' [''Job: 500''] = []"
  by code_simp

end
